theory Spec2Isabelle
  imports Main "HOL-Library.Sublist"
begin

section \<open>Python strings\<close>

text \<open>
  A Python \<open>str\<close> is modelled as a \<open>string\<close>: a list of characters whose code points lie
  below 256 (Latin-1), one \<open>char\<close> per code point. The predicates below follow
  \<open>str.isspace\<close>, \<open>str.lower\<close>, \<open>str.strip\<close>, \<open>str.split\<close>, \<open>str.join\<close> and the
  operator \<open>in\<close> on that range.
\<close>

definition isspace :: "char \<Rightarrow> bool" where
  "isspace c =
     (let n = (of_char c :: nat)
      in (9 \<le> n \<and> n \<le> 13) \<or> (28 \<le> n \<and> n \<le> 32) \<or> n = 133 \<or> n = 160)"

definition lower_char :: "char \<Rightarrow> char" where
  "lower_char c =
     (let n = (of_char c :: nat)
      in if (65 \<le> n \<and> n \<le> 90) \<or> (192 \<le> n \<and> n \<le> 214) \<or> (216 \<le> n \<and> n \<le> 222)
         then char_of (n + 32) else c)"

definition lower :: "string \<Rightarrow> string" where
  "lower s = map lower_char s"

definition lstrip :: "string \<Rightarrow> string" where
  "lstrip s = dropWhile isspace s"

definition rstrip :: "string \<Rightarrow> string" where
  "rstrip s = rev (dropWhile isspace (rev s))"

definition strip :: "string \<Rightarrow> string" where
  "strip s = rstrip (lstrip s)"

text \<open>\<open>sep.join(xs)\<close>.\<close>

fun join :: "string \<Rightarrow> string list \<Rightarrow> string" where
  "join sep [] = []"
| "join sep [x] = x"
| "join sep (x # y # ys) = x @ sep @ join sep (y # ys)"

text \<open>\<open>s.split()\<close>: the maximal runs of non-whitespace characters.\<close>

fun split_ws_acc :: "string \<Rightarrow> string \<Rightarrow> string list" where
  "split_ws_acc w [] = (if w = [] then [] else [w])"
| "split_ws_acc w (c # cs) =
     (if isspace c then (if w = [] then split_ws_acc [] cs else w # split_ws_acc [] cs)
      else split_ws_acc (w @ [c]) cs)"

definition split_ws :: "string \<Rightarrow> string list" where
  "split_ws s = split_ws_acc [] s"

text \<open>\<open>s.split(d)\<close> for a one-character separator: empty pieces are kept.\<close>

fun split_on_acc :: "char \<Rightarrow> string \<Rightarrow> string \<Rightarrow> string list" where
  "split_on_acc d w [] = [w]"
| "split_on_acc d w (c # cs) =
     (if c = d then w # split_on_acc d [] cs else split_on_acc d (w @ [c]) cs)"

definition split_on :: "char \<Rightarrow> string \<Rightarrow> string list" where
  "split_on d s = split_on_acc d [] s"

text \<open>\<open>sub in s\<close>.\<close>

fun py_in :: "string \<Rightarrow> string \<Rightarrow> bool" where
  "py_in sub [] = (sub = [])"
| "py_in sub (c # cs) = (prefix sub (c # cs) \<or> py_in sub cs)"

section \<open>Response sanitizer (src/chatbot.py)\<close>

definition NO_INFORMATION :: string where
  "NO_INFORMATION = ''I don't have that information in the provided documents.''"

subsection \<open>\<open>_validate_context_response\<close>\<close>

definition generic_indicators :: "string list" where
  "generic_indicators =
     [''as an ai'',
      ''i'm an ai'',
      ''i can help you with'',
      ''here are some general'',
      ''typically,'',
      ''generally speaking'',
      ''in general,'',
      ''commonly,'',
      ''it is widely known'',
      ''based on my training'',
      ''from what i know'']"

text \<open>The \<open>for\<close> loop over the indicators, returning at the first one found.\<close>

fun validate_loop :: "string list \<Rightarrow> string \<Rightarrow> string \<Rightarrow> string" where
  "validate_loop [] response_lower response = response"
| "validate_loop (indicator # rest) response_lower response =
     (if py_in indicator response_lower then NO_INFORMATION
      else validate_loop rest response_lower response)"

definition validate_context_response :: "string \<Rightarrow> string" where
  "validate_context_response response =
     (let response_lower = lower response
      in validate_loop generic_indicators response_lower response)"

subsection \<open>\<open>_clean_response\<close>\<close>

text \<open>
  Each leak pattern is the regular expression \<open>\n\s*L\<close> for a literal \<open>L\<close>, searched
  with \<open>re.IGNORECASE\<close>. The list holds the literals in the order of the source. No
  literal starts with a whitespace character, so \<open>\s*\<close> can only match the whole run of
  whitespace after the newline.
\<close>

definition leak_patterns :: "string list" where
  "leak_patterns =
     [''Question:'', ''Context:'', ''User:'', ''Assistant:'', ''Rules:'', ''Answer based'']"

text \<open>\<open>\s*L\<close> matches at the start of \<open>s\<close>, ignoring case.\<close>

definition leak_here :: "string \<Rightarrow> string \<Rightarrow> bool" where
  "leak_here lit s = prefix (lower lit) (lower (dropWhile isspace s))"

text \<open>\<open>re.search\<close>: the start of the leftmost match, or \<open>None\<close>.\<close>

fun re_search :: "string \<Rightarrow> string \<Rightarrow> nat option" where
  "re_search lit [] = None"
| "re_search lit (c # cs) =
     (if c = CHR 0x0A \<and> leak_here lit cs then Some 0
      else map_option Suc (re_search lit cs))"

text \<open>
  The pattern for \<open>lit\<close> matches in \<open>s\<close> with its newline at position \<open>i\<close>; and the
  position just after such a match: the newline, the run of whitespace, the literal.
\<close>

definition leak_at :: "string \<Rightarrow> string \<Rightarrow> nat \<Rightarrow> bool" where
  "leak_at lit s i = (i < length s \<and> s ! i = CHR 0x0A \<and> leak_here lit (drop (Suc i) s))"

definition leak_end :: "string \<Rightarrow> string \<Rightarrow> nat \<Rightarrow> nat" where
  "leak_end lit s i = Suc i + length (takeWhile isspace (drop (Suc i) s)) + length lit"

fun clean_loop :: "string list \<Rightarrow> string \<Rightarrow> string" where
  "clean_loop [] response = response"
| "clean_loop (pattern # rest) response =
     (case re_search pattern response of
        Some start \<Rightarrow> clean_loop rest (strip (take start response))
      | None \<Rightarrow> clean_loop rest response)"

definition clean_response :: "string \<Rightarrow> string" where
  "clean_response response = strip (clean_loop leak_patterns (strip response))"

subsection \<open>\<open>_detect_repetition\<close>\<close>

text \<open>
  The sentence check: \<open>sentences[-4:-1]\<close> is read only when there are more than three
  sentences, where it is the three elements before the last one. The result is
  \<open>Some\<close> the truncated text when the check returns, \<open>None\<close> when it falls through.
\<close>

definition sentence_check :: "string list \<Rightarrow> string option" where
  "sentence_check sentences =
     (if length sentences > 3 then
        (let last_three =
               map (\<lambda>s. lower (strip s))
                 (filter (\<lambda>s. strip s \<noteq> []) (take 3 (drop (length sentences - 4) sentences)))
         in if length last_three = 3 \<and>
               (last_three ! 0 = last_three ! 1 \<or> last_three ! 1 = last_three ! 2 \<or>
                list_all (\<lambda>s. card (set (take 5 (split_ws s))) < 3) last_three)
            then Some (join ''. '' (take (length sentences div 2) sentences) @ ''.'')
            else None)
      else None)"

text \<open>
  The phrase check: \<open>phrase_counts[phrase]\<close> is the number of occurrences of the phrase
  in \<open>phrases\<close>, which the source accumulates in a dictionary.
\<close>

definition phrase_check :: "string \<Rightarrow> string" where
  "phrase_check response =
     (let words = split_ws (lower response)
      in if length words > 20 then
           (let phrases = map (\<lambda>i. join '' '' (take 5 (drop i words))) [0..<length words - 5]
            in if list_ex (\<lambda>phrase. count_list phrases phrase > 2) phrases then
                 (case find (\<lambda>i. count_list phrases (phrases ! i) > 2) [0..<length phrases] of
                    Some i \<Rightarrow>
                      (let cut_point = i * 5 + length (split_ws (phrases ! i))
                       in join '' '' (take cut_point words) @ ''.'')
                  | None \<Rightarrow> response)
               else response)
         else response)"

definition detect_repetition :: "string \<Rightarrow> string" where
  "detect_repetition response =
     (if response = [] \<or> length response < 100 then response
      else (case sentence_check (split_on CHR ''.'' response) of
              Some truncated \<Rightarrow> truncated
            | None \<Rightarrow> phrase_check response))"

text \<open>The three stages in the order \<open>ask_question\<close> applies them.\<close>

definition sanitize :: "string \<Rightarrow> string" where
  "sanitize result = validate_context_response (detect_repetition (clean_response result))"

section \<open>Context assembly: \<open>_format_docs\<close>\<close>

text \<open>A retrieved document is represented by its \<open>page_content\<close>.\<close>

definition doc_fingerprint :: "string \<Rightarrow> string" where
  "doc_fingerprint page_content = strip (take 200 page_content)"

fun dedup_loop :: "string list \<Rightarrow> string list \<Rightarrow> string set \<Rightarrow> string list" where
  "dedup_loop [] unique_docs seen_content = unique_docs"
| "dedup_loop (doc # docs) unique_docs seen_content =
     (let fingerprint = doc_fingerprint doc
      in if fingerprint \<notin> seen_content
         then dedup_loop docs (unique_docs @ [doc]) (insert fingerprint seen_content)
         else dedup_loop docs unique_docs seen_content)"

definition MAX_CONTEXT_LENGTH :: nat where
  "MAX_CONTEXT_LENGTH = 12000"

definition format_doc :: "string \<Rightarrow> string" where
  "format_doc page_content = ''- '' @ join '' '' (split_ws (strip page_content))"

definition truncate_context :: "string \<Rightarrow> string" where
  "truncate_context formatted =
     (if length formatted > MAX_CONTEXT_LENGTH
      then take MAX_CONTEXT_LENGTH formatted @ (CHR 0x0A # ''[... truncated ...]'')
      else formatted)"

definition format_docs :: "string list \<Rightarrow> string" where
  "format_docs docs =
     (if docs = [] then ''No relevant documents found.''
      else (let unique_docs = dedup_loop docs [] {};
                formatted_docs = map format_doc unique_docs;
                formatted = join [CHR 0x0A, CHR 0x0A] formatted_docs
            in truncate_context formatted))"

section \<open>The query cache\<close>

text \<open>
  \<open>_query_cache\<close> is a \<open>collections.OrderedDict\<close>: its entries in insertion order, with
  no key twice. Reading a key and \<open>in\<close> leave the order alone; assigning to a key that is
  present replaces its value where it stands; assigning to a new key appends;
  \<open>popitem(last=False)\<close> removes the first entry.
\<close>

type_synonym cache = "(string \<times> string) list"

definition ENABLE_QUERY_CACHE :: bool where
  "ENABLE_QUERY_CACHE = True"

definition CACHE_SIZE :: nat where
  "CACHE_SIZE = 100"

definition od_contains :: "cache \<Rightarrow> string \<Rightarrow> bool" where
  "od_contains d k = (map_of d k \<noteq> None)"

fun od_setitem :: "cache \<Rightarrow> string \<Rightarrow> string \<Rightarrow> cache" where
  "od_setitem [] k v = [(k, v)]"
| "od_setitem ((k', v') # d) k v =
     (if k' = k then (k, v) # d else (k', v') # od_setitem d k v)"

text \<open>Called only on a dictionary of more than \<open>CACHE_SIZE\<close> entries, never on an empty one.\<close>

definition od_popitem_first :: "cache \<Rightarrow> cache" where
  "od_popitem_first d = tl d"

text \<open>Lines 160 to 162 of \<open>ask_question\<close>: store, then evict when over capacity.\<close>

definition cache_store :: "cache \<Rightarrow> string \<Rightarrow> string \<Rightarrow> cache" where
  "cache_store d query_hash result =
     (let d' = od_setitem d query_hash result
      in if length d' > CACHE_SIZE then od_popitem_first d' else d')"

definition clear_query_cache :: "cache \<Rightarrow> cache" where
  "clear_query_cache d = []"

section \<open>\<open>ask_question\<close>\<close>

text \<open>
  Values a caller can pass as the question: what \<open>json.loads\<close> produces (numbers are
  restricted to integers). \<open>JString\<close> is a \<open>str\<close> within the modelled range of
  characters. \<open>JUnencodable\<close> is a \<open>str\<close> that holds a lone surrogate (U+D800 to
  U+DFFF), which \<open>json.loads\<close> accepts and UTF-8 cannot encode: it is not empty, a
  surrogate is no whitespace, so it is not blank either, and \<open>.encode()\<close> raises
  \<open>UnicodeEncodeError\<close> on it; the argument is the text of that exception.
\<close>

datatype json =
    JNull
  | JBool bool
  | JNumber int
  | JString string
  | JUnencodable string
  | JArray "json list"
  | JObject "(string \<times> json) list"

fun truthy :: "json \<Rightarrow> bool" where
  "truthy JNull = False"
| "truthy (JBool b) = b"
| "truthy (JNumber n) = (n \<noteq> 0)"
| "truthy (JString s) = (s \<noteq> [])"
| "truthy (JUnencodable msg) = True"
| "truthy (JArray xs) = (xs \<noteq> [])"
| "truthy (JObject kvs) = (kvs \<noteq> [])"

fun type_name :: "json \<Rightarrow> string" where
  "type_name JNull = ''NoneType''"
| "type_name (JBool b) = ''bool''"
| "type_name (JNumber n) = ''int''"
| "type_name (JString s) = ''str''"
| "type_name (JUnencodable msg) = ''str''"
| "type_name (JArray xs) = ''list''"
| "type_name (JObject kvs) = ''dict''"

text \<open>
  An exception (a subclass of \<open>Exception\<close>) is its class, as far as the handlers of the
  source tell classes apart, and its text \<open>str(e)\<close>.
\<close>

datatype exception_class =
  FuturesTimeoutError | AttributeError | UnicodeEncodeError | OtherException

datatype py_exception = PyException exception_class string

fun exception_str :: "py_exception \<Rightarrow> string" where
  "exception_str (PyException cls msg) = msg"

fun is_timeout_error :: "py_exception \<Rightarrow> bool" where
  "is_timeout_error (PyException cls msg) = (cls = FuturesTimeoutError)"

definition no_attribute :: "json \<Rightarrow> string \<Rightarrow> py_exception" where
  "no_attribute v attr =
     PyException AttributeError
       ([CHR 0x27] @ type_name v @ [CHR 0x27] @ '' object has no attribute ''
          @ [CHR 0x27] @ attr @ [CHR 0x27])"

text \<open>
  What \<open>chain.invoke(query)\<close> does in the worker thread of the executor: it finishes
  after some time (in milliseconds) by returning text or by raising, or it never finishes.
  The chain built by \<open>create_chatbot\<close> ends in \<open>StrOutputParser\<close>, so a returned value is
  a \<open>str\<close> and the test \<open>isinstance(result, str)\<close> succeeds.
\<close>

datatype outcome = Returned string | Raised py_exception

datatype invocation = Finishes nat outcome | Hangs

text \<open>
  \<open>future.result(timeout=timeout)\<close>: the outcome of the call when it is there within
  the timeout, \<open>TimeoutError\<close> otherwise.
\<close>

datatype waited = Done outcome | TimedOut

fun future_result :: "nat \<Rightarrow> invocation \<Rightarrow> waited" where
  "future_result timeout (Finishes d out) = (if d \<le> timeout then Done out else TimedOut)"
| "future_result timeout Hangs = TimedOut"

text \<open>
  Leaving the block \<open>with ThreadPoolExecutor(max_workers=1) as executor\<close>, by \<open>return\<close>
  as on any other way, runs \<open>executor.shutdown(wait=True)\<close>, which joins the worker
  thread: the block is left when the call has finished, and never if it does not finish.
\<close>

fun executor_exit :: "invocation \<Rightarrow> nat option" where
  "executor_exit (Finishes d out) = Some d"
| "executor_exit Hangs = None"

text \<open>A call returns a value, raises, or never returns.\<close>

datatype 'a call = Return 'a | Raise py_exception | Blocks

text \<open>
  The warning sign that starts two of the fixed replies (U+26A0 U+FE0F) lies outside the
  modelled range of characters; it is written as its UTF-8 bytes.
\<close>

definition WARNING_SIGN :: string where
  "WARNING_SIGN = [CHR 0xE2, CHR 0x9A, CHR 0xA0, CHR 0xEF, CHR 0xB8, CHR 0x8F]"

definition NOT_INITIALIZED :: string where
  "NOT_INITIALIZED = WARNING_SIGN @ '' Chatbot not initialized.''"

definition INVALID_QUESTION :: string where
  "INVALID_QUESTION = WARNING_SIGN @ '' Please provide a valid question.''"

definition GENERIC_ERROR :: string where
  "GENERIC_ERROR = ''I encountered an error processing your request.''"

text \<open>
  \<open>ask_question(chain, query, timeout)\<close>, with the state it reads and writes made
  explicit: \<open>md5\<close> stands for \<open>hashlib.md5(s.encode()).hexdigest()\<close> on a string that
  can be encoded, \<open>chain\<close> is the truth value of the chain object, \<open>job\<close> is what \<open>chain.invoke(query)\<close> does when it is
  submitted, and the cache is passed in and returned. The third component of the
  result is the time at which the call returns, counted from its start in the unit of
  \<open>timeout\<close> (milliseconds); only the wait for the chain takes time.
\<close>

definition ask_question ::
  "(string \<Rightarrow> string) \<Rightarrow> bool \<Rightarrow> json \<Rightarrow> nat \<Rightarrow> invocation \<Rightarrow> cache \<Rightarrow> (string \<times> cache \<times> nat) call"
where
  "ask_question md5 chain query timeout job query_cache =
     (if \<not> chain then Return (NOT_INITIALIZED, query_cache, 0)
      else if \<not> truthy query then Return (INVALID_QUESTION, query_cache, 0)
      else (case query of
              JString q \<Rightarrow>
                (if strip q = [] then Return (INVALID_QUESTION, query_cache, 0)
                 else
                   (let query_normalized = lower (strip q);
                        query_hash = md5 query_normalized
                    in if ENABLE_QUERY_CACHE \<and> od_contains query_cache query_hash
                       then Return (the (map_of query_cache query_hash), query_cache, 0)
                       else
                         (case future_result timeout job of
                            TimedOut \<Rightarrow>
                              (case executor_exit job of
                                 Some t \<Rightarrow> Return (NO_INFORMATION, query_cache, t)
                               | None \<Rightarrow> Blocks)
                          | Done (Raised e) \<Rightarrow>
                              (case executor_exit job of
                                 Some t \<Rightarrow>
                                   (if is_timeout_error e
                                    then Return (NO_INFORMATION, query_cache, t)
                                    else Return (GENERIC_ERROR, query_cache, t))
                               | None \<Rightarrow> Blocks)
                          | Done (Returned raw) \<Rightarrow>
                              (case executor_exit job of
                                 Some t \<Rightarrow>
                                   (let result = sanitize raw
                                    in if ENABLE_QUERY_CACHE \<and> result \<noteq> []
                                       then Return (result, cache_store query_cache query_hash result, t)
                                       else Return (result, query_cache, t))
                               | None \<Rightarrow> Blocks))))
            | JUnencodable msg \<Rightarrow> Raise (PyException UnicodeEncodeError msg)
            | _ \<Rightarrow> Raise (no_attribute query ''strip'')))"

section \<open>The server: \<open>handle_client\<close> (bot_server.py)\<close>

text \<open>
  What the handler received: nothing; bytes that \<open>decode('utf-8')\<close> rejects, or on which
  \<open>json.loads\<close> raises something other than \<open>JSONDecodeError\<close>; text that is not JSON;
  a JSON object; or another JSON value.
\<close>

datatype request =
  NoData | Undecodable | NotJson | JsonObject "(string \<times> json) list" | JsonOther json

text \<open>The response dictionary; its \<open>time\<close> entry, a rounded float, is left out.\<close>

record response =
  status :: string
  answer :: string

definition DEFAULT_TIMEOUT :: nat where
  "DEFAULT_TIMEOUT = 60000"

text \<open>
  \<open>dict.get("question", "")\<close> on the decoded request; \<open>json.loads\<close> keeps the last of
  several equal keys.
\<close>

definition get_question :: "(string \<times> json) list \<Rightarrow> json" where
  "get_question request_json =
     (case map_of (rev request_json) ''question'' of Some v \<Rightarrow> v | None \<Rightarrow> JString [])"

text \<open>Step 2 of the handler, from the decoded question to the response.\<close>

definition process_question ::
  "(string \<Rightarrow> string) \<Rightarrow> bool \<Rightarrow> bool \<Rightarrow> json \<Rightarrow> invocation \<Rightarrow> cache \<Rightarrow> (response \<times> cache) call"
where
  "process_question md5 rag_chain is_ready question job query_cache =
     (if \<not> truthy question
      then Return (\<lparr>status = ''error'', answer = ''Empty question received.''\<rparr>, query_cache)
      else if \<not> is_ready
      then Return (\<lparr>status = ''error'',
                     answer = ''System is still loading models. Please wait.''\<rparr>, query_cache)
      else (case ask_question md5 rag_chain question DEFAULT_TIMEOUT job query_cache of
              Return (answer_text, query_cache', t) \<Rightarrow>
                Return (\<lparr>status = ''success'', answer = answer_text\<rparr>, query_cache')
            | Raise e \<Rightarrow>
                Return (\<lparr>status = ''error'',
                         answer = ''Internal Error: '' @ exception_str e\<rparr>, query_cache)
            | Blocks \<Rightarrow> Blocks))"

text \<open>
  The handler: the response it sends, if any, and the cache afterwards. A request that
  cannot be decoded fails outside the inner \<open>try\<close>, and one that is JSON but no object
  fails at \<open>.get\<close>; the outer handler logs that and nothing is sent.
\<close>

definition handle_client ::
  "(string \<Rightarrow> string) \<Rightarrow> bool \<Rightarrow> bool \<Rightarrow> request \<Rightarrow> invocation \<Rightarrow> cache
     \<Rightarrow> (response option \<times> cache) call"
where
  "handle_client md5 rag_chain is_ready request_data job query_cache =
     (case request_data of
        NoData \<Rightarrow> Return (None, query_cache)
      | Undecodable \<Rightarrow> Return (None, query_cache)
      | JsonOther v \<Rightarrow> Return (None, query_cache)
      | _ \<Rightarrow>
          (let question = (case request_data of
                             JsonObject request_json \<Rightarrow> get_question request_json
                           | _ \<Rightarrow> JString [])
           in case process_question md5 rag_chain is_ready question job query_cache of
                Return (r, query_cache') \<Rightarrow> Return (Some r, query_cache')
              | Raise e \<Rightarrow> Return (None, query_cache)
              | Blocks \<Rightarrow> Blocks))"

section \<open>Sequences of operations on the cache\<close>

datatype operation = Ask bool json nat invocation | ClearCache

text \<open>
  The cache after one operation. A call that raises or never returns has not written
  the cache.
\<close>

fun step :: "(string \<Rightarrow> string) \<Rightarrow> cache \<Rightarrow> operation \<Rightarrow> cache" where
  "step md5 d (Ask chain query timeout job) =
     (case ask_question md5 chain query timeout job d of
        Return (a, d', t) \<Rightarrow> d'
      | Raise e \<Rightarrow> d
      | Blocks \<Rightarrow> d)"
| "step md5 d ClearCache = clear_query_cache d"

text \<open>The cache starts empty (\<open>_query_cache = OrderedDict()\<close>).\<close>

definition run :: "(string \<Rightarrow> string) \<Rightarrow> operation list \<Rightarrow> cache" where
  "run md5 ops = foldl (step md5) [] ops"

section \<open>Example inputs\<close>

text \<open>
  One hundred distinct two-letter questions, and a call whose chain answers \<open>Paris\<close>
  within the timeout. In the examples the identity stands for the digest.
\<close>

definition example_questions :: "string list" where
  "example_questions = map (\<lambda>(a, b). [a, b]) (List.product ''abcdefghij'' ''abcdefghij'')"

definition example_ask :: "string \<Rightarrow> operation" where
  "example_ask q = Ask True (JString q) 60 (Finishes 1 (Returned ''Paris''))"

section \<open>Properties\<close>

subsection \<open>Strings\<close>

lemma py_in_sublist: "py_in sub s = sublist sub s"
  by (induction s) (simp_all add: sublist_Cons_right)

subsection \<open>Provenance validation\<close>

lemma validate_loop_found:
  "\<exists>indicator \<in> set indicators. py_in indicator response_lower
     \<Longrightarrow> validate_loop indicators response_lower response = NO_INFORMATION"
  by (induction indicators) auto

lemma validate_loop_none:
  "\<forall>indicator \<in> set indicators. \<not> py_in indicator response_lower
     \<Longrightarrow> validate_loop indicators response_lower response = response"
  by (induction indicators) auto

text \<open>
  Claim C6. Provenance validation replaces a response by the fixed sentinel as soon as its
  lower-cased text contains one of the listed hedge phrases, of which \<open>as an ai\<close> is one,
  whatever else the response holds; a response whose lower-cased text contains none of
  the phrases is returned as it is.
\<close>

theorem provenance_validation:
  "''as an ai'' \<in> set generic_indicators \<and>
   ((\<exists>indicator \<in> set generic_indicators. sublist indicator (lower response))
      \<longrightarrow> validate_context_response response = NO_INFORMATION) \<and>
   ((\<forall>indicator \<in> set generic_indicators. \<not> sublist indicator (lower response))
      \<longrightarrow> validate_context_response response = response)"
proof (intro conjI impI)
  show "''as an ai'' \<in> set generic_indicators"
    by (simp add: generic_indicators_def)
next
  assume "\<exists>indicator \<in> set generic_indicators. sublist indicator (lower response)"
  then show "validate_context_response response = NO_INFORMATION"
    unfolding validate_context_response_def Let_def
    by (intro validate_loop_found) (simp add: py_in_sublist)
next
  assume "\<forall>indicator \<in> set generic_indicators. \<not> sublist indicator (lower response)"
  then show "validate_context_response response = response"
    unfolding validate_context_response_def Let_def
    by (intro validate_loop_none) (simp add: py_in_sublist)
qed

theorem provenance_validation_witness:
  "sublist ''as an ai'' (lower ''Paris. But As An AI I cannot say.'') \<and>
   validate_context_response ''Paris. But As An AI I cannot say.'' = NO_INFORMATION \<and>
   \<not> (\<exists>indicator \<in> set generic_indicators. sublist indicator (lower ''Paris'')) \<and>
   validate_context_response ''Paris'' = ''Paris''"
proof -
  have found: "sublist ''as an ai'' (lower ''Paris. But As An AI I cannot say.'')"
    by code_simp
  have none: "\<not> (\<exists>indicator \<in> set generic_indicators. sublist indicator (lower ''Paris''))"
    by code_simp
  from provenance_validation [of "''Paris. But As An AI I cannot say.''"] found
  have replaced: "validate_context_response ''Paris. But As An AI I cannot say.'' = NO_INFORMATION"
    by blast
  from provenance_validation [of "''Paris''"] none
  have kept: "validate_context_response ''Paris'' = ''Paris''"
    by blast
  from found replaced none kept show ?thesis by blast
qed

subsection \<open>The ordered dictionary\<close>

lemma length_od_setitem: "length (od_setitem d k v) \<le> Suc (length d)"
  by (induction d k v rule: od_setitem.induct) auto

lemma set_od_setitem: "set (od_setitem d k v) \<subseteq> insert (k, v) (set d)"
  by (induction d k v rule: od_setitem.induct) auto

lemma od_setitem_new: "map_of d k = None \<Longrightarrow> od_setitem d k v = d @ [(k, v)]"
  by (induction d k v rule: od_setitem.induct) (auto split: if_splits)

lemma length_cache_store:
  "length d \<le> CACHE_SIZE \<Longrightarrow> length (cache_store d k v) \<le> CACHE_SIZE"
  using length_od_setitem [of d k v]
  by (auto simp: cache_store_def od_popitem_first_def Let_def)

lemma set_cache_store: "set (cache_store d k v) \<subseteq> insert (k, v) (set d)"
proof -
  have "set (tl (od_setitem d k v)) \<subseteq> set (od_setitem d k v)"
    by (cases "od_setitem d k v") auto
  with set_od_setitem [of d k v] show ?thesis
    by (auto simp: cache_store_def od_popitem_first_def Let_def)
qed

lemma cache_store_full:
  assumes "map_of d k = None" and "length d = CACHE_SIZE"
  shows "cache_store d k v = tl d @ [(k, v)]"
proof -
  from assms(2) have "d \<noteq> []"
    by (auto simp: CACHE_SIZE_def)
  with assms show ?thesis
    by (simp add: cache_store_def od_popitem_first_def od_setitem_new)
qed

subsection \<open>What \<open>ask_question\<close> does to the cache\<close>

lemma ask_question_cache:
  assumes "ask_question md5 chain query timeout job d = Return (a, d', t)"
  shows "d' = d \<or> (\<exists>k raw. a = sanitize raw \<and> sanitize raw \<noteq> [] \<and> d' = cache_store d k (sanitize raw))"
  using assms
  by (auto simp: ask_question_def Let_def
      split: if_splits json.splits waited.splits outcome.splits option.splits)

lemma ask_question_miss_returned:
  assumes "strip q \<noteq> []" and "\<not> od_contains d (md5 (lower (strip q)))" and "t \<le> timeout"
  shows "ask_question md5 True (JString q) timeout (Finishes t (Returned raw)) d =
           Return (sanitize raw,
                   (if sanitize raw \<noteq> [] then cache_store d (md5 (lower (strip q))) (sanitize raw)
                    else d),
                   t)"
proof -
  from assms(1) have "q \<noteq> []"
    by (auto simp: strip_def lstrip_def rstrip_def)
  with assms show ?thesis
    by (simp add: ask_question_def Let_def ENABLE_QUERY_CACHE_def)
qed

lemma ask_question_hit:
  assumes "strip q \<noteq> []" and "od_contains d (md5 (lower (strip q)))"
  shows "ask_question md5 True (JString q) timeout job d =
           Return (the (map_of d (md5 (lower (strip q)))), d, 0)"
proof -
  from assms(1) have "q \<noteq> []"
    by (auto simp: strip_def lstrip_def rstrip_def)
  with assms show ?thesis
    by (simp add: ask_question_def Let_def ENABLE_QUERY_CACHE_def)
qed

lemma step_length: "length d \<le> CACHE_SIZE \<Longrightarrow> length (step md5 d x) \<le> CACHE_SIZE"
proof (cases x)
  case (Ask chain query timeout job)
  assume bound: "length d \<le> CACHE_SIZE"
  show ?thesis
  proof (cases "ask_question md5 chain query timeout job d")
    case (Return r)
    obtain a d' t where r: "r = (a, d', t)"
      by (cases r) auto
    from ask_question_cache [of md5 chain query timeout job d a d' t] Return r bound
    have "length d' \<le> CACHE_SIZE"
      by (auto intro: length_cache_store)
    with Ask Return r show ?thesis by simp
  qed (use Ask bound in simp_all)
next
  case ClearCache
  then show ?thesis by (simp add: clear_query_cache_def)
qed

lemma foldl_step_length:
  "length d \<le> CACHE_SIZE \<Longrightarrow> length (foldl (step md5) d ops) \<le> CACHE_SIZE"
  by (induction ops arbitrary: d) (simp_all add: step_length)

text \<open>
  Claim C8. Starting from the empty cache, after every sequence of \<open>ask_question\<close> calls
  (whatever their arguments and whatever the chain does) and cache clears, the cache holds
  at most \<open>CACHE_SIZE\<close> entries, and \<open>CACHE_SIZE\<close> is 100.
\<close>

theorem cache_size_bounded:
  "length (run md5 ops) \<le> CACHE_SIZE \<and> CACHE_SIZE = 100"
  by (simp add: run_def foldl_step_length) (simp add: CACHE_SIZE_def)

theorem cache_size_bounded_witness:
  "run (\<lambda>s. s) [example_ask ''aa'', example_ask ''bb'', ClearCache, example_ask ''cc'']
     = [(''cc'', ''Paris'')] \<and>
   length (run (\<lambda>s. s) [example_ask ''aa'', example_ask ''bb'', ClearCache, example_ask ''cc''])
     \<le> CACHE_SIZE"
proof -
  have "run (\<lambda>s. s) [example_ask ''aa'', example_ask ''bb'', ClearCache, example_ask ''cc'']
          = [(''cc'', ''Paris'')]"
    by code_simp
  with cache_size_bounded
         [of "\<lambda>s. s" "[example_ask ''aa'', example_ask ''bb'', ClearCache, example_ask ''cc'']"]
  show ?thesis by blast
qed

subsection \<open>What the cache holds\<close>

lemma step_values:
  assumes "\<forall>(k, v) \<in> set d. v \<noteq> [] \<and> (\<exists>raw. v = sanitize raw)"
  shows "\<forall>(k, v) \<in> set (step md5 d x). v \<noteq> [] \<and> (\<exists>raw. v = sanitize raw)"
proof (cases x)
  case (Ask chain query timeout job)
  show ?thesis
  proof (cases "ask_question md5 chain query timeout job d")
    case (Return r)
    obtain a d' t where r: "r = (a, d', t)"
      by (cases r) auto
    from ask_question_cache [of md5 chain query timeout job d a d' t] Return r
    consider "d' = d"
      | k raw where "sanitize raw \<noteq> []" and "d' = cache_store d k (sanitize raw)"
      by auto
    then have "\<forall>(k, v) \<in> set d'. v \<noteq> [] \<and> (\<exists>raw. v = sanitize raw)"
    proof cases
      case 1
      with assms show ?thesis by simp
    next
      case 2
      with assms set_cache_store [of d k "sanitize raw"] show ?thesis
        by fastforce
    qed
    with Ask Return r show ?thesis by simp
  qed (use Ask assms in simp_all)
next
  case ClearCache
  then show ?thesis by (simp add: clear_query_cache_def)
qed

lemma foldl_step_values:
  "\<forall>(k, v) \<in> set d. v \<noteq> [] \<and> (\<exists>raw. v = sanitize raw)
     \<Longrightarrow> \<forall>(k, v) \<in> set (foldl (step md5) d ops). v \<noteq> [] \<and> (\<exists>raw. v = sanitize raw)"
proof (induction ops arbitrary: d)
  case Nil
  then show ?case by simp
next
  case (Cons x ops)
  have "\<forall>(k, v) \<in> set (step md5 d x). v \<noteq> [] \<and> (\<exists>raw. v = sanitize raw)"
    by (rule step_values [OF Cons.prems])
  then have "\<forall>(k, v) \<in> set (foldl (step md5) (step md5 d x) ops).
               v \<noteq> [] \<and> (\<exists>raw. v = sanitize raw)"
    by (rule Cons.IH)
  then show ?case by simp
qed

lemma od_contains_entry: "od_contains d k \<Longrightarrow> (k, the (map_of d k)) \<in> set d"
  by (auto simp: od_contains_def dest: map_of_SomeD)

text \<open>
  Claim C9. After every sequence of calls and clears from the empty cache, every value in
  the cache is a non-empty string obtained from some raw text by leak stripping, then
  repetition detection, then provenance validation; and a call that hits the cache
  returns such a value, with the cache as it was.
\<close>

theorem cache_holds_sanitized:
  "(\<forall>(k, v) \<in> set (run md5 ops).
      v \<noteq> [] \<and>
      (\<exists>raw. v = validate_context_response (detect_repetition (clean_response raw)))) \<and>
   (strip q \<noteq> [] \<and> od_contains (run md5 ops) (md5 (lower (strip q))) \<longrightarrow>
      (\<exists>v raw. ask_question md5 True (JString q) timeout job (run md5 ops)
                  = Return (v, run md5 ops, 0) \<and>
               v \<noteq> [] \<and>
               v = validate_context_response (detect_repetition (clean_response raw))))"
proof -
  have stored: "\<forall>(k, v) \<in> set (run md5 ops). v \<noteq> [] \<and> (\<exists>raw. v = sanitize raw)"
    unfolding run_def by (rule foldl_step_values) simp
  have hit: "\<exists>v raw. ask_question md5 True (JString q) timeout job (run md5 ops)
                        = Return (v, run md5 ops, 0) \<and> v \<noteq> [] \<and> v = sanitize raw"
    if "strip q \<noteq> []" and "od_contains (run md5 ops) (md5 (lower (strip q)))"
  proof -
    from od_contains_entry [OF that(2)] stored
    have "the (map_of (run md5 ops) (md5 (lower (strip q)))) \<noteq> [] \<and>
          (\<exists>raw. the (map_of (run md5 ops) (md5 (lower (strip q)))) = sanitize raw)"
      by fastforce
    with ask_question_hit
           [where q = q and d = "run md5 ops" and ?md5.0 = md5 and timeout = timeout and job = job]
         that
    show ?thesis
      by auto
  qed
  from stored hit show ?thesis
    unfolding sanitize_def by blast
qed

theorem cache_holds_sanitized_witness:
  "run (\<lambda>s. s) [example_ask ''aa''] = [(''aa'', ''Paris'')] \<and>
   strip '' AA '' \<noteq> [] \<and>
   od_contains (run (\<lambda>s. s) [example_ask ''aa'']) (lower (strip '' AA '')) \<and>
   (\<exists>v raw. ask_question (\<lambda>s. s) True (JString '' AA '') 60 Hangs (run (\<lambda>s. s) [example_ask ''aa''])
               = Return (v, run (\<lambda>s. s) [example_ask ''aa''], 0) \<and>
            v \<noteq> [] \<and>
            v = validate_context_response (detect_repetition (clean_response raw)))"
proof -
  have cache: "run (\<lambda>s. s) [example_ask ''aa''] = [(''aa'', ''Paris'')]"
    by code_simp
  have question: "strip '' AA '' \<noteq> []"
    by code_simp
  have present: "od_contains (run (\<lambda>s. s) [example_ask ''aa'']) (lower (strip '' AA ''))"
    by code_simp
  from cache_holds_sanitized [of "\<lambda>s. s" "[example_ask ''aa'']" "'' AA ''" 60 Hangs]
    question present cache
  show ?thesis by blast
qed

subsection \<open>The timeout path and the cache\<close>

text \<open>
  Claim C10. When a call for a question that is not in the cache runs into the timeout and
  returns, its answer is the sentinel and the cache is as before: it still has no entry
  for the question's fingerprint, and a following call with the same question waits for
  the chain again and answers with what the chain returns then.
\<close>

theorem timeout_leaves_cache:
  assumes "strip q \<noteq> []"
    and "\<not> od_contains d (md5 (lower (strip q)))"
    and "future_result timeout job = TimedOut"
    and "ask_question md5 True (JString q) timeout job d = Return (a, d', t)"
  shows "a = NO_INFORMATION \<and> d' = d \<and> \<not> od_contains d' (md5 (lower (strip q))) \<and>
         (\<forall>t' raw. t' \<le> timeout \<longrightarrow>
            ask_question md5 True (JString q) timeout (Finishes t' (Returned raw)) d'
              = Return (sanitize raw,
                        (if sanitize raw \<noteq> []
                         then cache_store d' (md5 (lower (strip q))) (sanitize raw) else d'),
                        t'))"
proof -
  from assms(1) have "q \<noteq> []"
    by (auto simp: strip_def lstrip_def rstrip_def)
  with assms have first: "a = NO_INFORMATION \<and> d' = d"
    by (auto simp: ask_question_def Let_def ENABLE_QUERY_CACHE_def split: option.splits)
  with assms(1,2) show ?thesis
    by (simp add: ask_question_miss_returned)
qed

theorem timeout_leaves_cache_witness:
  "future_result 50 (Finishes 200 (Returned ''Berlin'')) = TimedOut \<and>
   ask_question (\<lambda>s. s) True (JString ''aa'') 50 (Finishes 200 (Returned ''Berlin'')) []
     = Return (NO_INFORMATION, [], 200) \<and>
   ask_question (\<lambda>s. s) True (JString ''aa'') 50 (Finishes 10 (Returned ''Paris'')) []
     = Return (''Paris'', [(''aa'', ''Paris'')], 10)"
proof -
  have q: "strip ''aa'' \<noteq> []"
    by code_simp
  have miss: "\<not> od_contains [] (lower (strip ''aa''))"
    by (simp add: od_contains_def)
  have late: "future_result 50 (Finishes 200 (Returned ''Berlin'')) = TimedOut"
    by simp
  have first: "ask_question (\<lambda>s. s) True (JString ''aa'') 50 (Finishes 200 (Returned ''Berlin'')) []
                 = Return (NO_INFORMATION, [], 200)"
    using q by (simp add: ask_question_def Let_def od_contains_def ENABLE_QUERY_CACHE_def)
  have paris: "sanitize ''Paris'' = ''Paris''"
    by code_simp
  have key: "lower (strip ''aa'') = ''aa''"
    by code_simp
  have store: "cache_store [] ''aa'' ''Paris'' = [(''aa'', ''Paris'')]"
    by code_simp
  from timeout_leaves_cache
         [where q = "''aa''" and d = "[]" and ?md5.0 = "\<lambda>s. s" and timeout = 50
            and job = "Finishes 200 (Returned ''Berlin'')" and a = NO_INFORMATION
            and d' = "[]" and t = 200]
       q miss late first
  have "ask_question (\<lambda>s. s) True (JString ''aa'') 50 (Finishes 10 (Returned ''Paris'')) []
          = Return (sanitize ''Paris'',
                    (if sanitize ''Paris'' \<noteq> []
                     then cache_store [] (lower (strip ''aa'')) (sanitize ''Paris'') else []),
                    10)"
    by simp
  with paris key store late first show ?thesis
    by simp
qed

subsection \<open>Which entry is evicted\<close>

lemma od_contains_keys: "od_contains d k \<longleftrightarrow> k \<in> fst ` set d"
  by (simp add: od_contains_def map_of_eq_None_iff)

lemma step_ask_miss:
  assumes "strip q \<noteq> []" and "\<not> od_contains d (md5 (lower (strip q)))" and "t \<le> timeout"
    and "sanitize raw \<noteq> []"
  shows "step md5 d (Ask True (JString q) timeout (Finishes t (Returned raw)))
           = cache_store d (md5 (lower (strip q))) (sanitize raw)"
  using assms
    ask_question_miss_returned
      [where q = q and d = d and ?md5.0 = md5 and t = t and timeout = timeout and raw = raw]
  by simp

lemma step_ask_hit:
  assumes "strip q \<noteq> []" and "od_contains d (md5 (lower (strip q)))"
  shows "step md5 d (Ask True (JString q) timeout job) = d"
  using assms
    ask_question_hit
      [where q = q and d = d and ?md5.0 = md5 and timeout = timeout and job = job]
  by simp

lemma cache_store_room:
  assumes "\<not> od_contains d k" and "length d < CACHE_SIZE"
  shows "cache_store d k v = d @ [(k, v)]"
  using assms by (simp add: cache_store_def od_contains_def od_setitem_new)

lemma fill_cache:
  assumes "distinct (map (\<lambda>q. md5 (lower (strip q))) qs)"
    and "\<forall>q \<in> set qs. strip q \<noteq> [] \<and> \<not> od_contains d (md5 (lower (strip q)))"
    and "length d + length qs \<le> CACHE_SIZE"
    and "t \<le> timeout" and "sanitize raw \<noteq> []"
  shows "foldl (step md5) d (map (\<lambda>q. Ask True (JString q) timeout (Finishes t (Returned raw))) qs)
           = d @ map (\<lambda>q. (md5 (lower (strip q)), sanitize raw)) qs"
  using assms(1-3)
proof (induction qs arbitrary: d)
  case Nil
  then show ?case by simp
next
  case (Cons q qs)
  let ?k = "md5 (lower (strip q))"
  let ?d = "d @ [(?k, sanitize raw)]"
  from Cons.prems have q: "strip q \<noteq> []" "\<not> od_contains d ?k" "length d < CACHE_SIZE"
    by auto
  have first: "step md5 d (Ask True (JString q) timeout (Finishes t (Returned raw))) = ?d"
    using q assms(4,5)
      step_ask_miss
        [where q = q and d = d and ?md5.0 = md5 and t = t and timeout = timeout and raw = raw]
      cache_store_room [where d = d and k = ?k and v = "sanitize raw"]
    by presburger
  have "distinct (map (\<lambda>q. md5 (lower (strip q))) qs)"
    using Cons.prems(1) by simp
  moreover have "\<forall>q' \<in> set qs. strip q' \<noteq> [] \<and> \<not> od_contains ?d (md5 (lower (strip q')))"
    using Cons.prems(1,2) by (fastforce simp: od_contains_keys image_iff)
  moreover have "length ?d + length qs \<le> CACHE_SIZE"
    using Cons.prems(3) by simp
  ultimately have
    "foldl (step md5) ?d (map (\<lambda>q. Ask True (JString q) timeout (Finishes t (Returned raw))) qs)
       = ?d @ map (\<lambda>q. (md5 (lower (strip q)), sanitize raw)) qs"
    by (rule Cons.IH)
  with first show ?case by simp
qed

text \<open>
  Claim C1. The cache does not evict by least-recent access. Fill the empty cache with
  \<open>CACHE_SIZE\<close> questions of distinct fingerprints, ask the first of them again (a hit,
  which makes it the most recently accessed entry), then ask one more new question: the
  entry that goes is the one of the first question, the oldest by insertion, and the
  entries of all the other questions, none of them accessed since, stay.
\<close>

theorem eviction_by_insertion_order:
  assumes "length qs = CACHE_SIZE"
    and "distinct (map (\<lambda>q. md5 (lower (strip q))) (qs @ [q']))"
    and "\<forall>q \<in> set (qs @ [q']). strip q \<noteq> []"
    and "t \<le> timeout" and "sanitize raw \<noteq> []"
  shows "run md5
           (map (\<lambda>q. Ask True (JString q) timeout (Finishes t (Returned raw))) qs @
            [Ask True (JString (hd qs)) timeout (Finishes t (Returned raw)),
             Ask True (JString q') timeout (Finishes t (Returned raw))])
         = map (\<lambda>q. (md5 (lower (strip q)), sanitize raw)) (tl qs @ [q']) \<and>
         md5 (lower (strip (hd qs)))
           \<notin> fst ` set (map (\<lambda>q. (md5 (lower (strip q)), sanitize raw)) (tl qs @ [q']))"
proof -
  let ?key = "\<lambda>q. md5 (lower (strip q))"
  let ?ask = "\<lambda>q. Ask True (JString q) timeout (Finishes t (Returned raw))"
  let ?entry = "\<lambda>q. (?key q, sanitize raw)"
  let ?d = "map ?entry qs"
  from assms(1) obtain q0 rest where qs: "qs = q0 # rest"
    by (cases qs) (auto simp: CACHE_SIZE_def)
  have filled: "foldl (step md5) [] (map ?ask qs) = [] @ ?d"
    using assms
      fill_cache
        [where qs = qs and d = "[]" and ?md5.0 = md5 and t = t and timeout = timeout and raw = raw]
    by (simp add: od_contains_def)
  have present: "od_contains ?d (?key q0)"
    by (simp add: od_contains_keys qs)
  have absent: "\<not> od_contains ?d (?key q')"
    using assms(2) by (auto simp: od_contains_keys)
  have "strip q0 \<noteq> []" and q': "strip q' \<noteq> []"
    using assms(3) by (simp_all add: qs)
  then have again: "step md5 ?d (?ask q0) = ?d"
    using present
      step_ask_hit
        [where q = q0 and d = ?d and ?md5.0 = md5 and timeout = timeout
           and job = "Finishes t (Returned raw)"]
    by blast
  have "step md5 ?d (?ask q') = cache_store ?d (?key q') (sanitize raw)"
    using q' assms(4,5) absent
      step_ask_miss
        [where q = q' and d = ?d and ?md5.0 = md5 and t = t and timeout = timeout and raw = raw]
    by blast
  also have "\<dots> = tl ?d @ [?entry q']"
    using absent assms(1)
      cache_store_full [where d = ?d and k = "?key q'" and v = "sanitize raw"]
    by (simp add: od_contains_def)
  finally have new: "step md5 ?d (?ask q') = map ?entry (tl qs @ [q'])"
    by (simp add: qs)
  have "run md5 (map ?ask qs @ [?ask (hd qs), ?ask q']) = map ?entry (tl qs @ [q'])"
    using filled again new by (simp add: run_def qs)
  moreover have "?key (hd qs) \<notin> fst ` set (map ?entry (tl qs @ [q']))"
    using assms(2) by (auto simp: qs)
  ultimately show ?thesis by blast
qed

theorem eviction_by_insertion_order_witness:
  "length example_questions = CACHE_SIZE \<and>
   hd example_questions = ''aa'' \<and>
   run (\<lambda>s. s)
     (map (\<lambda>q. Ask True (JString q) 60 (Finishes 1 (Returned ''Paris''))) example_questions @
      [Ask True (JString (hd example_questions)) 60 (Finishes 1 (Returned ''Paris'')),
       Ask True (JString ''zz'') 60 (Finishes 1 (Returned ''Paris''))])
     = map (\<lambda>q. (lower (strip q), sanitize ''Paris'')) (tl example_questions @ [''zz'']) \<and>
   lower (strip (hd example_questions))
     \<notin> fst ` set (map (\<lambda>q. (lower (strip q), sanitize ''Paris'')) (tl example_questions @ [''zz'']))"
proof -
  have full: "length example_questions = CACHE_SIZE"
    by code_simp
  have first: "hd example_questions = ''aa''"
    by code_simp
  have keys: "distinct (map (\<lambda>q. lower (strip q)) (example_questions @ [''zz'']))"
    by code_simp
  have questions: "\<forall>q \<in> set (example_questions @ [''zz'']). strip q \<noteq> []"
    by code_simp
  have in_time: "(1::nat) \<le> 60"
    by simp
  have paris: "sanitize ''Paris'' \<noteq> []"
    by code_simp
  from eviction_by_insertion_order
         [where qs = example_questions and q' = "''zz''" and ?md5.0 = "\<lambda>s. s"
            and t = 1 and timeout = 60 and raw = "''Paris''"]
       full keys questions in_time paris
  have "run (\<lambda>s. s)
          (map (\<lambda>q. Ask True (JString q) 60 (Finishes 1 (Returned ''Paris''))) example_questions @
           [Ask True (JString (hd example_questions)) 60 (Finishes 1 (Returned ''Paris'')),
            Ask True (JString ''zz'') 60 (Finishes 1 (Returned ''Paris''))])
          = map (\<lambda>q. (lower (strip q), sanitize ''Paris'')) (tl example_questions @ [''zz'']) \<and>
        lower (strip (hd example_questions))
          \<notin> fst ` set (map (\<lambda>q. (lower (strip q), sanitize ''Paris''))
                          (tl example_questions @ [''zz'']))"
    by simp
  with full first show ?thesis by blast
qed

subsection \<open>Timeouts\<close>

lemma strip_nonempty: "strip q \<noteq> [] \<Longrightarrow> q \<noteq> []"
  by (auto simp: strip_def lstrip_def rstrip_def)

lemma ask_question_late:
  assumes "strip q \<noteq> []" and "\<not> od_contains d (md5 (lower (strip q)))" and "timeout < t"
  shows "ask_question md5 True (JString q) timeout (Finishes t out) d
           = Return (NO_INFORMATION, d, t)"
  using assms strip_nonempty [of q]
  by (simp add: ask_question_def Let_def ENABLE_QUERY_CACHE_def)

lemma ask_question_hangs:
  assumes "strip q \<noteq> []" and "\<not> od_contains d (md5 (lower (strip q)))"
  shows "ask_question md5 True (JString q) timeout Hangs d = Blocks"
  using assms strip_nonempty [of q]
  by (simp add: ask_question_def Let_def ENABLE_QUERY_CACHE_def)




lemma get_question_single: "get_question [(''question'', v)] = v"
  by (simp add: get_question_def)

lemma handle_client_question:
  "handle_client md5 chain ready (JsonObject [(''question'', v)]) job d
     = (case process_question md5 chain ready v job d of
          Return (r, d') \<Rightarrow> Return (Some r, d')
        | Raise e \<Rightarrow> Return (None, d)
        | Blocks \<Rightarrow> Blocks)"
  by (simp add: handle_client_def get_question_single)

text \<open>
  Claim C4. A generation that runs beyond the timeout holds the caller until the chain call
  has finished: the call returns when the chain does, however long after the timeout
  that is, and it never returns when the chain call never finishes.
\<close>

theorem timed_out_call_waits_for_chain:
  assumes "strip q \<noteq> []" and "\<not> od_contains d (md5 (lower (strip q)))" and "timeout < t"
  shows "(\<exists>a d'. ask_question md5 True (JString q) timeout (Finishes t out) d = Return (a, d', t)) \<and>
         ask_question md5 True (JString q) timeout Hangs d = Blocks"
  using assms
    ask_question_late
      [where q = q and d = d and ?md5.0 = md5 and timeout = timeout and t = t and out = out]
    ask_question_hangs [where q = q and d = d and ?md5.0 = md5 and timeout = timeout]
  by simp

theorem timed_out_call_waits_for_chain_witness:
  "(\<exists>a d'. ask_question (\<lambda>s. s) True (JString ''aa'') 50 (Finishes 200 (Returned ''Berlin'')) []
             = Return (a, d', 200)) \<and>
   ask_question (\<lambda>s. s) True (JString ''aa'') 50 Hangs [] = Blocks"
proof -
  have q: "strip ''aa'' \<noteq> []"
    by code_simp
  have miss: "\<not> od_contains [] (lower (strip ''aa''))"
    by (simp add: od_contains_def)
  have late: "(50::nat) < 200"
    by simp
  from timed_out_call_waits_for_chain
         [where q = "''aa''" and d = "[]" and ?md5.0 = "\<lambda>s. s" and timeout = 50 and t = 200
            and out = "Returned ''Berlin''"]
       q miss late
  show ?thesis by simp
qed

text \<open>
  Claim C3, as the source has it. For a question that is not blank and not in the cache,
  when the chain call has not produced a result within the timeout and finishes later,
  \<open>ask_question\<close> returns the fixed sentinel, a plain string without any status, and raises
  nothing; the server sends that answer with the status \<open>success\<close>.
\<close>

theorem timeout_returns_sentinel:
  assumes "strip q \<noteq> []" and "\<not> od_contains d (md5 (lower (strip q)))"
  shows "(timeout < t \<longrightarrow>
            ask_question md5 True (JString q) timeout (Finishes t out) d
              = Return (NO_INFORMATION, d, t)) \<and>
         (DEFAULT_TIMEOUT < t \<longrightarrow>
            handle_client md5 True True (JsonObject [(''question'', JString q)]) (Finishes t out) d
              = Return (Some \<lparr>status = ''success'', answer = NO_INFORMATION\<rparr>, d))"
proof (intro conjI impI)
  assume "timeout < t"
  with assms
    ask_question_late
      [where q = q and d = d and ?md5.0 = md5 and timeout = timeout and t = t and out = out]
  show "ask_question md5 True (JString q) timeout (Finishes t out) d
          = Return (NO_INFORMATION, d, t)"
    by blast
next
  assume "DEFAULT_TIMEOUT < t"
  with assms
    ask_question_late
      [where q = q and d = d and ?md5.0 = md5 and timeout = DEFAULT_TIMEOUT and t = t
         and out = out]
  have "ask_question md5 True (JString q) DEFAULT_TIMEOUT (Finishes t out) d
          = Return (NO_INFORMATION, d, t)"
    by blast
  with strip_nonempty [OF assms(1)]
  show "handle_client md5 True True (JsonObject [(''question'', JString q)]) (Finishes t out) d
          = Return (Some \<lparr>status = ''success'', answer = NO_INFORMATION\<rparr>, d)"
    by (simp add: handle_client_question process_question_def)
qed

theorem timeout_returns_sentinel_witness:
  "ask_question (\<lambda>s. s) True (JString ''aa'') 50 (Finishes 200 (Returned ''Berlin'')) []
     = Return (NO_INFORMATION, [], 200) \<and>
   handle_client (\<lambda>s. s) True True (JsonObject [(''question'', JString ''aa'')])
       (Finishes 70000 (Raised (PyException OtherException ''boom''))) []
     = Return (Some \<lparr>status = ''success'', answer = NO_INFORMATION\<rparr>, [])"
proof -
  have q: "strip ''aa'' \<noteq> []"
    by code_simp
  have miss: "\<not> od_contains [] (lower (strip ''aa''))"
    by (simp add: od_contains_def)
  have late: "(50::nat) < 200" "DEFAULT_TIMEOUT < 70000"
    by (simp_all add: DEFAULT_TIMEOUT_def)
  from timeout_returns_sentinel
         [where q = "''aa''" and d = "[]" and ?md5.0 = "\<lambda>s. s" and timeout = 50 and t = 200
            and out = "Returned ''Berlin''"]
       q miss late(1)
  have first: "ask_question (\<lambda>s. s) True (JString ''aa'') 50 (Finishes 200 (Returned ''Berlin'')) []
                 = Return (NO_INFORMATION, [], 200)"
    by simp
  from timeout_returns_sentinel
         [where q = "''aa''" and d = "[]" and ?md5.0 = "\<lambda>s. s" and t = 70000
            and out = "Raised (PyException OtherException ''boom'')"]
       q miss late(2)
  have "handle_client (\<lambda>s. s) True True (JsonObject [(''question'', JString ''aa'')])
            (Finishes 70000 (Raised (PyException OtherException ''boom''))) []
          = Return (Some \<lparr>status = ''success'', answer = NO_INFORMATION\<rparr>, [])"
    by simp
  with first show ?thesis by blast
qed

text \<open>
  Claim C3 as stated fails: the answer for a timed-out generation leaves the server with
  the status \<open>success\<close>, the same as any answer; no timeout status exists.
\<close>

theorem timeout_status_counterexample:
  "handle_client (\<lambda>s. s) True True (JsonObject [(''question'', JString ''aa'')])
       (Finishes 70000 (Returned ''Berlin'')) []
     = Return (Some \<lparr>status = ''success'', answer = NO_INFORMATION\<rparr>, [])"
proof -
  have q: "strip ''aa'' \<noteq> []"
    by code_simp
  have miss: "\<not> od_contains [] (lower (strip ''aa''))"
    by (simp add: od_contains_def)
  have "ask_question (\<lambda>s. s) True (JString ''aa'') DEFAULT_TIMEOUT
          (Finishes 70000 (Returned ''Berlin'')) [] = Return (NO_INFORMATION, [], 70000)"
    using q miss
      ask_question_late
        [where q = "''aa''" and d = "[]" and ?md5.0 = "\<lambda>s. s" and timeout = DEFAULT_TIMEOUT
           and t = 70000 and out = "Returned ''Berlin''"]
    by (simp add: DEFAULT_TIMEOUT_def)
  then show ?thesis
    by (simp add: handle_client_question process_question_def)
qed

subsection \<open>Exceptions and the response\<close>




subsection \<open>Context assembly\<close>

lemma dedup_loop_snoc:
  "dedup_loop (docs @ [x]) unique_docs seen =
     (if doc_fingerprint x \<in> seen \<union> doc_fingerprint ` set docs
      then dedup_loop docs unique_docs seen
      else dedup_loop docs unique_docs seen @ [x])"
  by (induction docs arbitrary: unique_docs seen) (auto simp: Let_def)

lemma dedup_loop_positions:
  "dedup_loop docs [] {} =
     map ((!) docs)
       (filter (\<lambda>j. \<forall>i<j. doc_fingerprint (docs ! i) \<noteq> doc_fingerprint (docs ! j))
          [0..<length docs])"
proof (induction docs rule: rev_induct)
  case Nil
  then show ?case by simp
next
  case (snoc x docs)
  let ?keep = "\<lambda>ds j. \<forall>i<j. doc_fingerprint (ds ! i) \<noteq> doc_fingerprint (ds ! j)"
  have same: "filter (?keep (docs @ [x])) [0..<length docs] = filter (?keep docs) [0..<length docs]"
    by (rule filter_cong) (auto simp: nth_append)
  have entries: "map ((!) (docs @ [x])) (filter (?keep docs) [0..<length docs])
                   = map ((!) docs) (filter (?keep docs) [0..<length docs])"
    by (rule map_cong) (auto simp: nth_append)
  have last: "?keep (docs @ [x]) (length docs) \<longleftrightarrow> doc_fingerprint x \<notin> doc_fingerprint ` set docs"
  proof
    assume keep: "?keep (docs @ [x]) (length docs)"
    show "doc_fingerprint x \<notin> doc_fingerprint ` set docs"
    proof
      assume "doc_fingerprint x \<in> doc_fingerprint ` set docs"
      then obtain i where "i < length docs" "doc_fingerprint (docs ! i) = doc_fingerprint x"
        by (auto simp: in_set_conv_nth)
      with keep show False
        by (auto simp: nth_append)
    qed
  next
    assume fresh: "doc_fingerprint x \<notin> doc_fingerprint ` set docs"
    have "doc_fingerprint (docs ! i) \<noteq> doc_fingerprint x" if "i < length docs" for i
      using fresh nth_mem [OF that] by (metis imageI)
    then show "?keep (docs @ [x]) (length docs)"
      by (simp add: nth_append)
  qed
  show ?case
    using snoc.IH same entries last
    by (simp add: dedup_loop_snoc)
qed

text \<open>
  Claim C7. Let \<open>js\<close> be the positions of the fragments that no earlier fragment matches
  in the stripped first 200 characters, in increasing order. The fragments kept are those
  at \<open>js\<close>, in that order; a fragment whose first 200 characters equal those of an
  earlier fragment is not among them; and the context is built from the kept fragments
  in that order.
\<close>

theorem dedup_keeps_rank_order:
  assumes "js = filter (\<lambda>j. \<forall>i<j. doc_fingerprint (docs ! i) \<noteq> doc_fingerprint (docs ! j))
                  [0..<length docs]"
  shows "dedup_loop docs [] {} = map ((!) docs) js \<and>
         sorted_wrt (<) js \<and> set js \<subseteq> {..<length docs} \<and>
         (\<forall>j<length docs. (\<exists>i<j. take 200 (docs ! i) = take 200 (docs ! j)) \<longrightarrow> j \<notin> set js) \<and>
         (docs \<noteq> [] \<longrightarrow>
            format_docs docs
              = truncate_context (join [CHR 0x0A, CHR 0x0A] (map (\<lambda>j. format_doc (docs ! j)) js)))"
proof (intro conjI)
  show kept: "dedup_loop docs [] {} = map ((!) docs) js"
    unfolding assms by (rule dedup_loop_positions)
  show "sorted_wrt (<) js"
    unfolding assms by (rule sorted_wrt_filter) simp
  show "set js \<subseteq> {..<length docs}"
    unfolding assms by auto
  show "\<forall>j<length docs. (\<exists>i<j. take 200 (docs ! i) = take 200 (docs ! j)) \<longrightarrow> j \<notin> set js"
    unfolding assms by (auto simp: doc_fingerprint_def)
  show "docs \<noteq> [] \<longrightarrow>
          format_docs docs
            = truncate_context (join [CHR 0x0A, CHR 0x0A] (map (\<lambda>j. format_doc (docs ! j)) js))"
    by (simp add: format_docs_def kept Let_def comp_def)
qed

theorem dedup_keeps_rank_order_witness:
  "take 200 ''Paris is in  France.'' = take 200 ''Paris is in  France.'' \<and>
   dedup_loop [''Paris is in  France.'', ''Paris is in  France.'', ''Berlin''] [] {}
     = [''Paris is in  France.'', ''Berlin''] \<and>
   format_docs [''Paris is in  France.'', ''Paris is in  France.'', ''Berlin'']
     = ''- Paris is in France.'' @ [CHR 0x0A, CHR 0x0A] @ ''- Berlin''"
proof -
  let ?docs = "[''Paris is in  France.'', ''Paris is in  France.'', ''Berlin'']"
  have js: "[0, 2] = filter (\<lambda>j. \<forall>i<j. doc_fingerprint (?docs ! i) \<noteq> doc_fingerprint (?docs ! j))
                       [0..<length ?docs]"
    by code_simp
  have formatted: "truncate_context
                   (join [CHR 0x0A, CHR 0x0A] (map (\<lambda>j. format_doc (?docs ! j)) [0, 2]))
                 = ''- Paris is in France.'' @ [CHR 0x0A, CHR 0x0A] @ ''- Berlin''"
    by code_simp
  from dedup_keeps_rank_order [OF js]
  have "dedup_loop ?docs [] {} = map ((!) ?docs) [0, 2]"
    and "format_docs ?docs
           = truncate_context (join [CHR 0x0A, CHR 0x0A] (map (\<lambda>j. format_doc (?docs ! j)) [0, 2]))"
    by simp_all
  with formatted show ?thesis by simp
qed

subsection \<open>Leak stripping\<close>

lemma lower_append: "lower (a @ b) = lower a @ lower b"
  by (simp add: lower_def)

lemma length_lower: "length (lower s) = length s"
  by (simp add: lower_def)

lemma rstrip_prefix: "prefix (rstrip s) s"
proof -
  have "suffix (dropWhile isspace (rev s)) (rev s)"
    by (rule suffix_dropWhile)
  then show ?thesis
    by (simp add: rstrip_def suffix_to_prefix)
qed

lemma lstrip_id: "s = [] \<or> \<not> isspace (hd s) \<Longrightarrow> lstrip s = s"
  by (cases s) (auto simp: lstrip_def)

lemma lstrip_no_lead: "lstrip s = [] \<or> \<not> isspace (hd (lstrip s))"
  unfolding lstrip_def by (metis hd_dropWhile)

lemma prefix_no_lead:
  assumes "prefix p s" and "s = [] \<or> \<not> isspace (hd s)"
  shows "p = [] \<or> \<not> isspace (hd p)"
  using assms by (cases p) (auto simp: prefix_def)

lemma strip_no_lead: "strip s = [] \<or> \<not> isspace (hd (strip s))"
  unfolding strip_def
  using prefix_no_lead [OF rstrip_prefix lstrip_no_lead] .

lemma strip_rstrip: "s = [] \<or> \<not> isspace (hd s) \<Longrightarrow> strip s = rstrip s"
  by (simp add: strip_def lstrip_id)

lemma rstrip_idem: "rstrip (rstrip s) = rstrip s"
  by (simp add: rstrip_def)

lemma strip_idem: "strip (strip s) = strip s"
  using strip_no_lead [of s]
  by (simp add: strip_rstrip) (simp add: strip_def rstrip_idem)

lemma prefix_rstrip:
  assumes "prefix a x" and "a \<noteq> []" and "\<not> isspace (last a)"
  shows "prefix a (rstrip x)"
proof -
  from assms(1) obtain b where x: "x = a @ b"
    by (auto simp: prefix_def)
  have a: "dropWhile isspace (rev a) = rev a"
    using assms(2,3) by (cases "rev a") (auto simp: last_rev hd_rev)
  show ?thesis
  proof (cases "\<forall>c \<in> set b. isspace c")
    case True
    have "dropWhile isspace (rev b @ rev a) = dropWhile isspace (rev a)"
      by (rule dropWhile_append2) (use True in auto)
    with a show ?thesis
      by (simp add: rstrip_def x)
  next
    case False
    then obtain c where "c \<in> set (rev b)" and "\<not> isspace c"
      by auto
    then have "dropWhile isspace (rev b @ rev a) = dropWhile isspace (rev b) @ rev a"
      by (rule dropWhile_append1)
    then show ?thesis
      by (simp add: rstrip_def x)
  qed
qed

lemma leak_at_Cons_0: "leak_at lit (c # cs) 0 \<longleftrightarrow> c = CHR 0x0A \<and> leak_here lit cs"
  by (simp add: leak_at_def)

lemma leak_at_Cons_Suc: "leak_at lit (c # cs) (Suc i) \<longleftrightarrow> leak_at lit cs i"
  by (simp add: leak_at_def)

lemma re_search_Some:
  "re_search lit s = Some i \<Longrightarrow> leak_at lit s i \<and> (\<forall>j<i. \<not> leak_at lit s j)"
proof (induction s arbitrary: i)
  case Nil
  then show ?case by simp
next
  case (Cons c cs)
  show ?case
  proof (cases "c = CHR 0x0A \<and> leak_here lit cs")
    case True
    with Cons.prems show ?thesis
      by (simp add: leak_at_Cons_0)
  next
    case False
    with Cons.prems obtain i' where i': "re_search lit cs = Some i'" "i = Suc i'"
      by auto
    from Cons.IH [OF i'(1)] have ih: "leak_at lit cs i'" "\<forall>j<i'. \<not> leak_at lit cs j"
      by simp_all
    have "\<not> leak_at lit (c # cs) j" if "j < Suc i'" for j
      using that False ih(2) by (cases j) (simp_all add: leak_at_Cons_0 leak_at_Cons_Suc)
    with ih(1) i'(2) show ?thesis
      by (simp add: leak_at_Cons_Suc)
  qed
qed

lemma re_search_None: "re_search lit s = None \<Longrightarrow> \<not> leak_at lit s i"
proof (induction s arbitrary: i)
  case Nil
  then show ?case by (simp add: leak_at_def)
next
  case (Cons c cs)
  then show ?case
    by (cases i) (auto simp: leak_at_Cons_0 leak_at_Cons_Suc split: if_splits)
qed

lemma clean_loop_no_leak:
  "\<forall>lit \<in> set ps. re_search lit t = None \<Longrightarrow> clean_loop ps t = t"
  by (induction ps) simp_all


lemma isspace_lower_char: "isspace c \<Longrightarrow> lower_char c = c"
  by (auto simp: isspace_def lower_char_def Let_def)

lemma leak_here_append:
  assumes "leak_here lit xs" and "lit \<noteq> []"
  shows "leak_here lit (xs @ ys)"
proof -
  have "\<exists>x \<in> set xs. \<not> isspace x"
  proof (rule ccontr)
    assume "\<not> (\<exists>x \<in> set xs. \<not> isspace x)"
    then have "dropWhile isspace xs = []"
      by simp
    with assms show False
      by (simp add: leak_here_def lower_def)
  qed
  then obtain x where "x \<in> set xs" and "\<not> isspace x"
    by blast
  then have "dropWhile isspace (xs @ ys) = dropWhile isspace xs @ ys"
    by (rule dropWhile_append1)
  with assms(1) show ?thesis
    by (simp add: leak_here_def lower_append prefix_prefix)
qed

lemma leak_at_extend:
  assumes "leak_at lit p i" and "lit \<noteq> []" and "prefix p t"
  shows "leak_at lit t i"
proof -
  from assms(3) obtain r where t: "t = p @ r"
    by (auto simp: prefix_def)
  from assms(1) have i: "i < length p" "p ! i = CHR 0x0A" "leak_here lit (drop (Suc i) p)"
    by (simp_all add: leak_at_def)
  from i(3) assms(2) have "leak_here lit (drop (Suc i) p @ r)"
    by (rule leak_here_append)
  with i(1,2) show ?thesis
    by (simp add: leak_at_def t nth_append)
qed

lemma leak_at_shift: "leak_at lit (a @ s) (length a + i) \<longleftrightarrow> leak_at lit s i"
  by (simp add: leak_at_def nth_append)

lemma leak_end_le_length:
  assumes "leak_at lit t i"
  shows "leak_end lit t i \<le> length t"
proof -
  let ?xs = "drop (Suc i) t"
  from assms have "prefix (lower lit) (lower (dropWhile isspace ?xs))" and i: "i < length t"
    by (simp_all add: leak_at_def leak_here_def)
  then have "length lit \<le> length (dropWhile isspace ?xs)"
    using prefix_length_le [of "lower lit" "lower (dropWhile isspace ?xs)"]
    by (simp add: length_lower)
  moreover have "length (takeWhile isspace ?xs) + length (dropWhile isspace ?xs) = length ?xs"
    by (metis length_append takeWhile_dropWhile_id)
  ultimately show ?thesis
    using i by (simp add: leak_end_def)
qed

lemma dropWhile_take_dropWhile:
  "dropWhile P (take k (dropWhile P xs)) = take k (dropWhile P xs)"
proof (cases "dropWhile P xs")
  case Nil
  show ?thesis
    unfolding Nil by simp
next
  case (Cons y ys)
  have "\<not> P y"
    by (metis Cons hd_dropWhile list.distinct(1) list.sel(1))
  then show ?thesis
    unfolding Cons by (cases k) simp_all
qed

lemma leak_at_take:
  assumes "leak_at lit t i" and "leak_end lit t i \<le> n"
  shows "leak_at lit (take n t) i"
proof -
  let ?xs = "drop (Suc i) t"
  let ?W = "takeWhile isspace ?xs"
  let ?D = "dropWhile isspace ?xs"
  let ?k = "n - Suc i - length ?W"
  let ?Y = "take ?k ?D"
  from assms(1) have i: "i < length t" "t ! i = CHR 0x0A" and pre: "prefix (lower lit) (lower ?D)"
    by (simp_all add: leak_at_def leak_here_def)
  from assms(2) have n: "i < n" "length ?W \<le> n - Suc i" "length lit \<le> ?k"
    by (simp_all add: leak_end_def)
  have "take (n - Suc i) ?xs = take (n - Suc i) (?W @ ?D)"
    by simp
  also have "\<dots> = ?W @ ?Y"
    using n(2) by (simp del: takeWhile_dropWhile_id)
  finally have rest: "drop (Suc i) (take n t) = ?W @ ?Y"
    by (simp add: drop_take)
  have "dropWhile isspace (?W @ ?Y) = dropWhile isspace ?Y"
    by (rule dropWhile_append2) (auto dest: set_takeWhileD)
  also have "\<dots> = ?Y"
    by (rule dropWhile_take_dropWhile)
  finally have dropped: "dropWhile isspace (drop (Suc i) (take n t)) = ?Y"
    by (simp add: rest)
  from pre obtain c where c: "lower ?D = lower lit @ c"
    by (auto simp: prefix_def)
  have "lower ?Y = take ?k (lower ?D)"
    by (simp add: lower_def take_map)
  also have "\<dots> = lower lit @ take (?k - length lit) c"
    using n(3) by (simp add: c length_lower)
  finally have "prefix (lower lit) (lower ?Y)"
    by simp
  with i n(1) dropped show ?thesis
    by (simp add: leak_at_def leak_here_def)
qed

lemma leak_patterns_nonempty: "lit \<in> set leak_patterns \<Longrightarrow> lit \<noteq> []"
  by (auto simp: leak_patterns_def)

lemma leak_patterns_prefix_free:
  "\<forall>l1 \<in> set leak_patterns. \<forall>l2 \<in> set leak_patterns. prefix (lower l1) (lower l2) \<longrightarrow> l1 = l2"
  by (simp add: leak_patterns_def lower_def lower_char_def char_of_def bit_Suc_0_iff)

lemma leak_patterns_no_newline: "\<forall>lit \<in> set leak_patterns. CHR 0x0A \<notin> set (lower lit)"
  by (simp add: leak_patterns_def lower_def lower_char_def char_of_def bit_Suc_0_iff)

lemma leak_patterns_last: "\<forall>lit \<in> set leak_patterns. \<not> isspace (last (lower lit))"
  by (simp add: leak_patterns_def lower_def lower_char_def isspace_def char_of_def bit_Suc_0_iff)

lemma lower_char_newline: "lower_char (CHR 0x0A) = CHR 0x0A"
  by (simp add: lower_char_def)

lemma leak_at_literal:
  assumes "leak_at lit t m" and "j < length lit"
  shows "lower_char (t ! (Suc m + length (takeWhile isspace (drop (Suc m) t)) + j)) = lower lit ! j"
proof -
  let ?xs = "drop (Suc m) t"
  let ?W = "takeWhile isspace ?xs"
  let ?D = "dropWhile isspace ?xs"
  from assms(1) have m: "m < length t" and pre: "prefix (lower lit) (lower ?D)"
    by (simp_all add: leak_at_def leak_here_def)
  from pre obtain c where c: "lower ?D = lower lit @ c"
    by (auto simp: prefix_def)
  then have "length (lower lit @ c) = length ?D"
    by (metis length_lower)
  with assms(2) have j: "j < length ?D"
    by (simp add: length_lower)
  have "t ! (Suc m + length ?W + j) = ?xs ! (length ?W + j)"
    using m by (simp add: add.assoc)
  also have "\<dots> = (?W @ ?D) ! (length ?W + j)"
    by simp
  also have "\<dots> = ?D ! j"
    by (simp only: nth_append_length_plus)
  finally have "lower_char (t ! (Suc m + length ?W + j)) = lower ?D ! j"
    using j by (simp add: lower_def)
  also have "\<dots> = lower lit ! j"
    using assms(2) by (simp only: c nth_append length_lower if_True)
  finally show ?thesis .
qed

lemma leaks_do_not_overlap:
  assumes "leak_at l1 t m" and "leak_at l2 t k" and "m < k" and "k < leak_end l1 t m"
    and "l1 \<in> set leak_patterns" and "l2 \<in> set leak_patterns"
  shows "l1 = l2"
proof -
  let ?xs = "drop (Suc m) t"
  let ?W = "takeWhile isspace ?xs"
  let ?D = "dropWhile isspace ?xs"
  from assms(1) have pre1: "prefix (lower l1) (lower ?D)"
    by (simp add: leak_at_def leak_here_def)
  from assms(2) have k: "t ! k = CHR 0x0A" "leak_here l2 (drop (Suc k) t)"
    by (simp_all add: leak_at_def)
  show ?thesis
  proof (cases "k \<le> m + length ?W")
    case True
    have "drop (Suc k) t = drop (k - m) ?xs"
      using assms(3) by simp
    also have "\<dots> = drop (k - m) (?W @ ?D)"
      by simp
    also have "\<dots> = drop (k - m) ?W @ ?D"
      using True by (simp del: takeWhile_dropWhile_id)
    finally have "dropWhile isspace (drop (Suc k) t) = dropWhile isspace (drop (k - m) ?W @ ?D)"
      by simp
    also have "\<dots> = dropWhile isspace ?D"
      by (rule dropWhile_append2) (auto dest: in_set_dropD set_takeWhileD)
    also have "\<dots> = ?D"
      by simp
    finally have "prefix (lower l2) (lower ?D)"
      using k(2) by (simp add: leak_here_def)
    with pre1 have "prefix (lower l1) (lower l2) \<or> prefix (lower l2) (lower l1)"
      by (rule prefix_same_cases)
    with assms(5,6) leak_patterns_prefix_free show ?thesis
      by blast
  next
    case False
    let ?j = "k - (Suc m + length ?W)"
    from False assms(4) have j: "?j < length l1" and pos: "k = Suc m + length ?W + ?j"
      by (simp_all add: leak_end_def)
    from leak_at_literal [OF assms(1) j] pos k(1)
    have "lower l1 ! ?j = CHR 0x0A"
      by (simp add: lower_char_newline)
    with j have "CHR 0x0A \<in> set (lower l1)"
      by (metis length_lower nth_mem)
    with assms(5) leak_patterns_no_newline show ?thesis
      by blast
  qed
qed

lemma leak_end_not_space:
  assumes "leak_at lit t m" and "lit \<in> set leak_patterns"
  shows "\<not> isspace (t ! (leak_end lit t m - 1))"
proof
  let ?W = "takeWhile isspace (drop (Suc m) t)"
  assume space: "isspace (t ! (leak_end lit t m - 1))"
  from assms(2) have ne: "lit \<noteq> []"
    by (rule leak_patterns_nonempty)
  then have pos: "leak_end lit t m - 1 = Suc m + length ?W + (length lit - 1)"
    by (cases lit) (simp_all add: leak_end_def)
  from ne have "length lit - 1 < length lit"
    by simp
  from leak_at_literal [OF assms(1) this] pos
  have "lower_char (t ! (leak_end lit t m - 1)) = lower lit ! (length lit - 1)"
    by simp
  also have "\<dots> = last (lower lit)"
    using ne by (simp add: last_conv_nth lower_def)
  finally have "t ! (leak_end lit t m - 1) = last (lower lit)"
    using space by (simp add: isspace_lower_char)
  with space assms(2) leak_patterns_last show False
    by auto
qed

lemma strip_take_prefix:
  assumes "t0 = [] \<or> \<not> isspace (hd t0)"
  shows "strip (take k t0) = rstrip (take k t0)" and "prefix (strip (take k t0)) t0"
proof -
  have "take k t0 = [] \<or> \<not> isspace (hd (take k t0))"
    using take_is_prefix assms by (rule prefix_no_lead)
  then show eq: "strip (take k t0) = rstrip (take k t0)"
    by (rule strip_rstrip)
  have "prefix (rstrip (take k t0)) (take k t0)"
    by (rule rstrip_prefix)
  from prefix_order.trans [OF this take_is_prefix]
  show "prefix (strip (take k t0)) t0"
    by (simp only: eq)
qed

lemma leak_at_strip:
  assumes "leak_at lit (strip r) i" and "lit \<noteq> []"
  shows "\<exists>j. leak_at lit r j"
proof -
  have "prefix (strip r) (lstrip r)"
    unfolding strip_def by (rule rstrip_prefix)
  with assms have "leak_at lit (lstrip r) i"
    by (rule leak_at_extend)
  then have "leak_at lit (takeWhile isspace r @ lstrip r) (length (takeWhile isspace r) + i)"
    by (simp only: leak_at_shift)
  moreover have "takeWhile isspace r @ lstrip r = r"
    by (simp add: lstrip_def)
  ultimately have "leak_at lit r (length (takeWhile isspace r) + i)"
    by (simp only:)
  then show ?thesis ..
qed

lemma last_take_nth:
  assumes "0 < n" and "n \<le> length xs"
  shows "last (take n xs) = xs ! (n - 1)"
proof -
  from assms have "take n xs \<noteq> []"
    by auto
  then have "last (take n xs) = take n xs ! (length (take n xs) - 1)"
    by (rule last_conv_nth)
  also have "\<dots> = take n xs ! (n - 1)"
    using assms(2) by (simp add: min_def)
  also have "\<dots> = xs ! (n - 1)"
    using assms(1) by simp
  finally show ?thesis .
qed

lemma clean_loop_first_leak:
  assumes nolead: "t0 = [] \<or> \<not> isspace (hd t0)"
    and pm: "litm \<in> set leak_patterns"
    and at: "leak_at litm t0 m"
    and first: "\<forall>lit \<in> set leak_patterns. \<forall>i<m. \<not> leak_at lit t0 i"
  shows "set ps \<subseteq> set leak_patterns \<Longrightarrow>
         t = strip (take m t0) \<or>
           (prefix t t0 \<and> leak_end litm t0 m \<le> length t \<and> litm \<in> set ps) \<Longrightarrow>
         clean_loop ps t = strip (take m t0)"
proof (induction ps arbitrary: t)
  case Nil
  then show ?case by simp
next
  case (Cons p ps)
  let ?T = "strip (take m t0)"
  let ?e = "leak_end litm t0 m"
  from Cons.prems(1) have p: "p \<in> set leak_patterns" and ps: "set ps \<subseteq> set leak_patterns"
    by auto
  from p have pne: "p \<noteq> []"
    by (rule leak_patterns_nonempty)
  from Cons.prems(2) show ?case
  proof
    assume t: "t = ?T"
    have Tpre: "prefix ?T t0"
      by (rule strip_take_prefix(2) [OF nolead])
    have "length ?T \<le> length (take m t0)"
      unfolding strip_take_prefix(1) [OF nolead] by (rule prefix_length_le [OF rstrip_prefix])
    then have Tlen: "length ?T \<le> m"
      by simp
    have "re_search p t = None"
    proof (cases "re_search p t")
      case None
      then show ?thesis .
    next
      case (Some i)
      from re_search_Some [OF Some] have i: "leak_at p t i"
        by simp
      then have "i < length t"
        by (simp add: leak_at_def)
      with t Tlen have "i < m"
        by simp
      moreover from i pne Tpre have "leak_at p t0 i"
        unfolding t by (rule leak_at_extend)
      ultimately show ?thesis
        using first p by blast
    qed
    then have "clean_loop (p # ps) t = clean_loop ps t"
      by simp
    also have "\<dots> = ?T"
      by (rule Cons.IH [OF ps]) (simp add: t)
    finally show ?thesis .
  next
    assume B: "prefix t t0 \<and> ?e \<le> length t \<and> litm \<in> set (p # ps)"
    then have tt: "take (length t) t0 = t"
      by (auto simp: prefix_def)
    from leak_at_take [OF at, of "length t"] B tt have atm: "leak_at litm t m"
      by simp
    show ?thesis
    proof (cases "re_search p t")
      case None
      from re_search_None [OF None] atm have "p \<noteq> litm"
        by blast
      with B have "litm \<in> set ps"
        by auto
      with B have "clean_loop ps t = ?T"
        by (intro Cons.IH [OF ps] disjI2) simp
      with None show ?thesis
        by simp
    next
      case (Some k)
      from re_search_Some [OF Some]
      have ak: "leak_at p t k" and leftmost: "\<forall>j<k. \<not> leak_at p t j"
        by simp_all
      from ak have klen: "k < length t"
        by (simp add: leak_at_def)
      from B have "prefix t t0"
        by simp
      with ak pne have ak0: "leak_at p t0 k"
        by (rule leak_at_extend)
      have mk: "m \<le> k"
      proof (rule ccontr)
        assume "\<not> m \<le> k"
        then have "k < m"
          by simp
        with first p ak0 show False
          by blast
      qed
      have "take k t = take k (take (length t) t0)"
        by (simp only: tt)
      also have "\<dots> = take k t0"
        using klen by (simp add: min_def)
      finally have cut: "take k t = take k t0" .
      with Some have loop: "clean_loop (p # ps) t = clean_loop ps (strip (take k t0))"
        by simp
      show ?thesis
      proof (cases "k = m")
        case True
        have "clean_loop ps (strip (take k t0)) = ?T"
          by (rule Cons.IH [OF ps]) (simp add: True)
        with loop show ?thesis
          by simp
      next
        case False
        with mk have less: "m < k"
          by simp
        have differ: "p \<noteq> litm"
          using atm less leftmost by blast
        have beyond: "?e \<le> k"
        proof (rule ccontr)
          assume "\<not> ?e \<le> k"
          then have "k < ?e"
            by simp
          from leaks_do_not_overlap [OF at ak0 less this pm p] differ show False
            by simp
        qed
        from differ B have rest: "litm \<in> set ps"
          by auto
        let ?t' = "strip (take k t0)"
        have t'pre: "prefix ?t' t0"
          by (rule strip_take_prefix(2) [OF nolead])
        have elen: "?e \<le> length t0"
          by (rule leak_end_le_length [OF at])
        have epos: "0 < ?e"
          by (simp add: leak_end_def)
        have "take ?e t0 = take ?e (take k t0)"
          using beyond by (simp add: min_def)
        then have a: "prefix (take ?e t0) (take k t0)"
          by (metis take_is_prefix)
        have b: "take ?e t0 \<noteq> []"
          using epos elen by auto
        have "last (take ?e t0) = t0 ! (?e - 1)"
          using epos elen by (rule last_take_nth)
        then have c: "\<not> isspace (last (take ?e t0))"
          using leak_end_not_space [OF at pm] by simp
        have "prefix (take ?e t0) (rstrip (take k t0))"
          using a b c by (rule prefix_rstrip)
        then have "prefix (take ?e t0) ?t'"
          by (simp only: strip_take_prefix(1) [OF nolead])
        from prefix_length_le [OF this] elen have "?e \<le> length ?t'"
          by simp
        with t'pre rest have "clean_loop ps ?t' = ?T"
          by (intro Cons.IH [OF ps] disjI2) simp
        with loop show ?thesis
          by simp
      qed
    qed
  qed
qed

text \<open>
  Claim C5, as the source has it. Leak stripping first trims the text. When no leak
  pattern matches in the text (or just none in the trimmed text), the result is the
  trimmed text. When some pattern matches in the trimmed text, the result is the trimmed
  text cut at the start of the leftmost match of any pattern, trimmed again.
\<close>

theorem leak_stripping:
  "((\<forall>lit \<in> set leak_patterns. \<forall>i. \<not> leak_at lit response i)
      \<longrightarrow> clean_response response = strip response) \<and>
   ((\<forall>lit \<in> set leak_patterns. \<forall>i. \<not> leak_at lit (strip response) i)
      \<longrightarrow> clean_response response = strip response) \<and>
   ((\<exists>lit \<in> set leak_patterns. leak_at lit (strip response) m) \<and>
    (\<forall>lit \<in> set leak_patterns. \<forall>i<m. \<not> leak_at lit (strip response) i)
      \<longrightarrow> clean_response response = strip (take m (strip response)))"
proof -
  let ?t0 = "strip response"
  have none: "clean_response response = ?t0"
    if "\<forall>lit \<in> set leak_patterns. \<forall>i. \<not> leak_at lit ?t0 i"
  proof -
    have "re_search lit ?t0 = None" if "lit \<in> set leak_patterns" for lit
    proof (cases "re_search lit ?t0")
      case None
      then show ?thesis .
    next
      case (Some i)
      from re_search_Some [OF Some] \<open>lit \<in> set leak_patterns\<close>
        \<open>\<forall>lit \<in> set leak_patterns. \<forall>i. \<not> leak_at lit ?t0 i\<close>
      show ?thesis by blast
    qed
    then have "clean_loop leak_patterns ?t0 = ?t0"
      by (intro clean_loop_no_leak) simp
    then show ?thesis
      by (simp add: clean_response_def strip_idem)
  qed
  have raw: "clean_response response = ?t0"
    if absent: "\<forall>lit \<in> set leak_patterns. \<forall>i. \<not> leak_at lit response i"
  proof (rule none, intro ballI allI notI)
    fix lit i
    assume lit: "lit \<in> set leak_patterns" and "leak_at lit ?t0 i"
    from leak_at_strip [OF this(2) leak_patterns_nonempty [OF lit]]
    obtain j where "leak_at lit response j" ..
    with absent lit show False
      by blast
  qed
  have cut: "clean_response response = strip (take m ?t0)"
    if "\<exists>lit \<in> set leak_patterns. leak_at lit ?t0 m"
      and "\<forall>lit \<in> set leak_patterns. \<forall>i<m. \<not> leak_at lit ?t0 i"
  proof -
    from that(1) obtain litm where litm: "litm \<in> set leak_patterns" "leak_at litm ?t0 m"
      by blast
    have "clean_loop leak_patterns ?t0 = strip (take m ?t0)"
    proof (rule clean_loop_first_leak [OF strip_no_lead litm that(2)])
      show "set leak_patterns \<subseteq> set leak_patterns"
        by simp
      show "?t0 = strip (take m ?t0) \<or>
            (prefix ?t0 ?t0 \<and> leak_end litm ?t0 m \<le> length ?t0 \<and> litm \<in> set leak_patterns)"
        using leak_end_le_length [OF litm(2)] litm(1) by simp
    qed
    then show ?thesis
      by (simp add: clean_response_def strip_idem)
  qed
  show ?thesis
  proof (intro conjI impI)
    assume "\<forall>lit \<in> set leak_patterns. \<forall>i. \<not> leak_at lit response i"
    then show "clean_response response = ?t0"
      by (rule raw)
  next
    assume "\<forall>lit \<in> set leak_patterns. \<forall>i. \<not> leak_at lit ?t0 i"
    then show "clean_response response = ?t0"
      by (rule none)
  next
    assume "(\<exists>lit \<in> set leak_patterns. leak_at lit ?t0 m) \<and>
            (\<forall>lit \<in> set leak_patterns. \<forall>i<m. \<not> leak_at lit ?t0 i)"
    then show "clean_response response = strip (take m ?t0)"
      using cut by blast
  qed
qed

theorem leak_stripping_witness:
  "clean_response ''  Paris.  '' = ''Paris.'' \<and>
   leak_at ''Context:''
     (strip (''a'' @ [CHR 0x0A] @ ''Context: b'' @ [CHR 0x0A] @ ''Question: c'' @ [CHR 0x0A])) 1 \<and>
   clean_response (''a'' @ [CHR 0x0A] @ ''Context: b'' @ [CHR 0x0A] @ ''Question: c'' @ [CHR 0x0A])
     = ''a''"
proof -
  let ?r = "''a'' @ [CHR 0x0A] @ ''Context: b'' @ [CHR 0x0A] @ ''Question: c'' @ [CHR 0x0A]"
  have "\<forall>lit \<in> set leak_patterns. re_search lit ''  Paris.  '' = None"
    by code_simp
  then have clean: "\<forall>lit \<in> set leak_patterns. \<forall>i. \<not> leak_at lit ''  Paris.  '' i"
    using re_search_None by blast
  have trimmed: "strip ''  Paris.  '' = ''Paris.''"
    by code_simp
  from leak_stripping [of "''  Paris.  ''"] clean trimmed
  have first: "clean_response ''  Paris.  '' = ''Paris.''"
    by simp
  have at: "leak_at ''Context:'' (strip ?r) 1"
    by code_simp
  have pattern: "''Context:'' \<in> set leak_patterns"
    by (simp add: leak_patterns_def)
  have leftmost: "\<forall>lit \<in> set leak_patterns. \<forall>i<1. \<not> leak_at lit (strip ?r) i"
    by code_simp
  have cut: "strip (take 1 (strip ?r)) = ''a''"
    by code_simp
  from leak_stripping [of ?r 1] at pattern leftmost
  have "clean_response ?r = strip (take 1 (strip ?r))"
    by blast
  with cut first at show ?thesis
    by simp
qed

text \<open>
  Claim C5 as stated fails: a text without any leak pattern that starts with a blank is
  not returned unchanged.
\<close>

theorem leak_stripping_counterexample:
  "list_all (\<lambda>lit. re_search lit '' Paris'' = None) leak_patterns \<and>
   clean_response '' Paris'' = ''Paris'' \<and> ''Paris'' \<noteq> '' Paris''"
  by code_simp

end
